theory Spec2Isabelle
  imports Main "HOL-Library.Word" "HOL-Library.Multiset"
begin

unbundle bit_operations_syntax

section \<open>SrcMapElem (compiler/compiled_method.h, lines 92-112)\<close>

text \<open>
  The class has two fields, \<^verbatim>\<open>uint32_t from_\<close> and \<^verbatim>\<open>int32_t to_\<close>. Both are 32-bit
  words here; \<open>to'\<close> is read as two's complement through \<open>sint\<close> wherever the
  source treats it as signed. (An Isabelle name cannot end in an underscore, hence the
  primes.)
\<close>

record SrcMapElem =
  from' :: "32 word"
  to' :: "32 word"

text \<open>
  \<^verbatim>\<open>explicit operator int64_t() const { return (static_cast<int64_t>(to_) << 32) | from_; }\<close>
  The cast of \<^verbatim>\<open>to_\<close> sign-extends (\<open>scast\<close>), the shift is \<open>push_bit 32\<close> on 64 bits,
  and \<^verbatim>\<open>from_\<close> is zero-extended (\<open>ucast\<close>) by the usual arithmetic conversions.
\<close>

definition SrcMapElem_int64 :: "SrcMapElem \<Rightarrow> 64 word" where
  "SrcMapElem_int64 e = push_bit 32 (scast (to' e) :: 64 word) OR ucast (from' e)"

text \<open>\<^verbatim>\<open>operator<\<close>: a signed comparison of the two 64-bit keys.\<close>

definition SrcMapElem_less :: "SrcMapElem \<Rightarrow> SrcMapElem \<Rightarrow> bool" where
  "SrcMapElem_less e sme \<longleftrightarrow> SrcMapElem_int64 e <s SrcMapElem_int64 sme"

text \<open>\<^verbatim>\<open>operator==\<close>: equality of the two 64-bit keys.\<close>

definition SrcMapElem_eq :: "SrcMapElem \<Rightarrow> SrcMapElem \<Rightarrow> bool" where
  "SrcMapElem_eq e sme \<longleftrightarrow> SrcMapElem_int64 e = SrcMapElem_int64 sme"

section \<open>Standard-library algorithms used by SrcMap\<close>

text \<open>
  \<^verbatim>\<open>std::sort(first, last, lt)\<close> rearranges the range into an order in which no element
  is \<open>lt\<close>-below an earlier one; it is not stable. \<open>std_sort_post\<close> is that contract.
  \<open>std_sort\<close> is one executable sort which meets it (insertion from the right).
  Where the comparison is a strict total order the contract admits one result only;
  where it is not (\<^verbatim>\<open>SortByFrom\<close>), the functions below take the sort as a parameter
  constrained by the contract.
\<close>

definition std_sort_post :: "('a \<Rightarrow> 'a \<Rightarrow> bool) \<Rightarrow> 'a list \<Rightarrow> 'a list \<Rightarrow> bool" where
  "std_sort_post lt xs ys \<longleftrightarrow> mset ys = mset xs \<and> sorted_wrt (\<lambda>a b. \<not> lt b a) ys"

fun std_sort_insert :: "('a \<Rightarrow> 'a \<Rightarrow> bool) \<Rightarrow> 'a \<Rightarrow> 'a list \<Rightarrow> 'a list" where
  "std_sort_insert lt v [] = [v]"
| "std_sort_insert lt v (y # ys) =
     (if lt y v then y # std_sort_insert lt v ys else v # y # ys)"

definition std_sort :: "('a \<Rightarrow> 'a \<Rightarrow> bool) \<Rightarrow> 'a list \<Rightarrow> 'a list" where
  "std_sort lt xs = foldr (std_sort_insert lt) xs []"

text \<open>
  \<^verbatim>\<open>std::unique(first, last)\<close> keeps the first element of every run of consecutive equal
  elements and returns the new logical end; the caller's \<^verbatim>\<open>resize\<close> cuts the vector
  there. \<open>std_unique\<close> returns the kept prefix.
\<close>

fun std_unique :: "('a \<Rightarrow> 'a \<Rightarrow> bool) \<Rightarrow> 'a list \<Rightarrow> 'a list" where
  "std_unique eq [] = []"
| "std_unique eq [x] = [x]"
| "std_unique eq (x # y # ys) =
     (if eq x y then std_unique eq (x # ys) else x # std_unique eq (y # ys))"

text \<open>
  \<^verbatim>\<open>std::lower_bound(first, last, val)\<close>: the usual halving search. An iterator is the
  index of its element, the end iterator is the length of the list. The search only
  reads positions below \<open>first + len\<close>.
\<close>

function lower_bound_loop :: "('a \<Rightarrow> 'b \<Rightarrow> bool) \<Rightarrow> 'a list \<Rightarrow> 'b \<Rightarrow> nat \<Rightarrow> nat \<Rightarrow> nat" where
  "lower_bound_loop lt xs val first len =
     (if 0 < len then
        (if lt (xs ! (first + len div 2)) val
         then lower_bound_loop lt xs val (first + len div 2 + 1) (len - len div 2 - 1)
         else lower_bound_loop lt xs val first (len div 2))
      else first)"
  by pat_completeness auto
termination
  by (relation "measure (\<lambda>(lt, xs, val, first, len). len)") auto

declare lower_bound_loop.simps [simp del]

definition std_lower_bound :: "('a \<Rightarrow> 'b \<Rightarrow> bool) \<Rightarrow> 'a list \<Rightarrow> 'b \<Rightarrow> nat" where
  "std_lower_bound lt xs val = lower_bound_loop lt xs val 0 (length xs)"

text \<open>What \<^verbatim>\<open>std::lower_bound\<close> promises about the returned position \<open>r\<close>.\<close>

definition lower_bound_post :: "('a \<Rightarrow> 'b \<Rightarrow> bool) \<Rightarrow> 'a list \<Rightarrow> 'b \<Rightarrow> nat \<Rightarrow> bool" where
  "lower_bound_post lt xs val r \<longleftrightarrow>
     r \<le> length xs \<and> (\<forall>j<r. lt (xs ! j) val)
     \<and> (\<forall>j. r \<le> j \<and> j < length xs \<longrightarrow> \<not> lt (xs ! j) val)"

section \<open>SrcMap (compiler/compiled_method.h, lines 114-177)\<close>

text \<open>The class derives from \<^verbatim>\<open>std::vector<SrcMapElem>\<close>: a list of entries.\<close>

type_synonym SrcMap = "SrcMapElem list"

text \<open>
  A failed \<^verbatim>\<open>DCHECK\<close> aborts the process. \<^verbatim>\<open>DCHECK\<close> only checks when debug checks are
  compiled in; that build-time constant is the parameter \<open>kEnableDChecks\<close> of every
  function which has one.
\<close>

datatype failure = DCheckFailed

text \<open>\<^verbatim>\<open>SortByFrom\<close>: \<^verbatim>\<open>std::sort\<close> with the comparison \<^verbatim>\<open>lhs.from_ < rhs.from_\<close> (unsigned).\<close>

definition from_less :: "SrcMapElem \<Rightarrow> SrcMapElem \<Rightarrow> bool" where
  "from_less lhs rhs \<longleftrightarrow> from' lhs < from' rhs"

definition SortByFrom :: "SrcMap \<Rightarrow> SrcMap" where
  "SortByFrom m = std_sort from_less m"

text \<open>\<^verbatim>\<open>FindByTo\<close>: \<^verbatim>\<open>std::lower_bound(begin(), end(), SrcMapElem({0, to}))\<close>.\<close>

definition FindByTo :: "SrcMap \<Rightarrow> 32 word \<Rightarrow> nat" where
  "FindByTo m to = std_lower_bound SrcMapElem_less m \<lparr>from' = 0, to' = to\<rparr>"

text \<open>
  \<^verbatim>\<open>Arrange\<close>: sort by \<^verbatim>\<open>operator<\<close>, cut at \<^verbatim>\<open>std::unique\<close> (which compares with
  \<^verbatim>\<open>operator==\<close>); \<^verbatim>\<open>shrink_to_fit\<close> changes the capacity only.
\<close>

definition Arrange :: "SrcMap \<Rightarrow> SrcMap" where
  "Arrange m =
     (if m \<noteq> [] then std_unique SrcMapElem_eq (std_sort SrcMapElem_less m) else m)"

text \<open>A canonical map: strictly increasing by \<^verbatim>\<open>operator<\<close>, that is by the composite key.\<close>

definition canonical :: "SrcMap \<Rightarrow> bool" where
  "canonical m \<longleftrightarrow> sorted_wrt SrcMapElem_less m"

text \<open>
  \<^verbatim>\<open>DeltaFormat\<close>, first loop (lines 160-165): \<^verbatim>\<open>i\<close> walks down from \<^verbatim>\<open>size() - 1\<close> and
  stops at the first entry with \<^verbatim>\<open>from_ < highest_pc\<close>, or at 0. The result is the final
  \<^verbatim>\<open>i\<close>.
\<close>

fun drop_highest_loop :: "SrcMap \<Rightarrow> 32 word \<Rightarrow> nat \<Rightarrow> nat" where
  "drop_highest_loop m highest_pc 0 = 0"
| "drop_highest_loop m highest_pc (Suc i) =
     (if from' (m ! Suc i) < highest_pc then Suc i else drop_highest_loop m highest_pc i)"

text \<open>
  Second loop (lines 168-171): for \<^verbatim>\<open>i\<close> from \<^verbatim>\<open>size() - 1\<close> down to 1, entry \<^verbatim>\<open>i\<close> becomes
  its difference from entry \<^verbatim>\<open>i - 1\<close>. \<^verbatim>\<open>from_\<close> is unsigned and wraps; the subtraction on
  \<^verbatim>\<open>to_\<close> is modelled as two's complement.
\<close>

fun delta_loop :: "SrcMap \<Rightarrow> nat \<Rightarrow> SrcMap" where
  "delta_loop m 0 = m"
| "delta_loop m (Suc i) =
     delta_loop (m[Suc i := \<lparr>from' = from' (m ! Suc i) - from' (m ! i),
                            to' = to' (m ! Suc i) - to' (m ! i)\<rparr>]) i"

text \<open>
  \<^verbatim>\<open>DeltaFormat(start, highest_pc)\<close>. The parameter \<open>sort_by_from\<close> stands for the call
  \<^verbatim>\<open>SortByFrom()\<close>: \<^verbatim>\<open>std::sort\<close> may leave entries of equal \<^verbatim>\<open>from_\<close> in any order, so the
  theorems below hold for every \<open>sort_by_from\<close> whose result meets
  \<open>std_sort_post from_less\<close>, of which \<open>SortByFrom\<close> is one. \<^verbatim>\<open>resize(i + 1)\<close> never grows
  the vector here, so it is \<open>take\<close>. The result is \<open>Inl DCheckFailed\<close> when the
  \<^verbatim>\<open>DCHECK\<close> of line 172 fails, and the new content of the vector otherwise.
\<close>

definition DeltaFormat ::
  "bool \<Rightarrow> (SrcMap \<Rightarrow> SrcMap) \<Rightarrow> SrcMapElem \<Rightarrow> 32 word \<Rightarrow> SrcMap \<Rightarrow> failure + SrcMap" where
  "DeltaFormat kEnableDChecks sort_by_from start highest_pc m =
     (if m \<noteq> [] then
        let m1 = sort_by_from m;
            i = drop_highest_loop m1 highest_pc (length m1 - 1);
            m2 = take (i + 1) m1;
            m3 = delta_loop m2 (length m2 - 1)
        in if kEnableDChecks \<and> \<not> (from' (m3 ! 0) \<ge> from' start) then Inl DCheckFailed
           else Inr (m3[0 := \<lparr>from' = from' (m3 ! 0) - from' start,
                              to' = to' (m3 ! 0) - to' start\<rparr>])
      else Inr m)"

text \<open>
  Not in the source. Follows the specification's words for the round-trip law:
  "re-accumulating deltas starting from baseline", the running sums of \<open>from\<close> and \<open>to\<close>.
\<close>

fun reaccumulate :: "SrcMapElem \<Rightarrow> SrcMap \<Rightarrow> SrcMap" where
  "reaccumulate prev [] = []"
| "reaccumulate prev (d # ds) =
     \<lparr>from' = from' prev + from' d, to' = to' prev + to' d\<rparr>
       # reaccumulate \<lparr>from' = from' prev + from' d, to' = to' prev + to' d\<rparr> ds"

text \<open>Not in the source: the differences of consecutive entries, used to describe the loops.\<close>

fun deltas :: "SrcMapElem \<Rightarrow> SrcMap \<Rightarrow> SrcMap" where
  "deltas prev [] = []"
| "deltas prev (e # es) =
     \<lparr>from' = from' e - from' prev, to' = to' e - to' prev\<rparr> # deltas e es"

text \<open>Not in the source: the composite key as a mathematical integer.\<close>

definition skey :: "SrcMapElem \<Rightarrow> int" where
  "skey e = sint (SrcMapElem_int64 e)"

section \<open>LinkerPatch (compiler/compiled_method.h, lines 183-276)\<close>

datatype LinkerPatchType =
  kLinkerPatchMethod | kLinkerPatchCall | kLinkerPatchCallRelative | kLinkerPatchType

text \<open>The enumerators' values, by which \<^verbatim>\<open>operator<\<close> compares two patch types.\<close>

fun LinkerPatchType_value :: "LinkerPatchType \<Rightarrow> nat" where
  "LinkerPatchType_value kLinkerPatchMethod = 0"
| "LinkerPatchType_value kLinkerPatchCall = 1"
| "LinkerPatchType_value kLinkerPatchCallRelative = 2"
| "LinkerPatchType_value kLinkerPatchType = 3"

text \<open>
  \<^verbatim>\<open>size_t\<close> and \<^verbatim>\<open>const DexFile*\<close> are words of the platform's width \<open>'w\<close>; a pointer is
  its address, and pointers compare as addresses.
\<close>

record (overloaded) ('w :: len) LinkerPatch =
  literal_offset' :: "'w word"
  patch_type' :: LinkerPatchType
  target_idx' :: "32 word"
  target_dex_file' :: "'w word"

text \<open>
  Modelled from the spec: \<^verbatim>\<open>MethodReference\<close> is declared in method_reference.h, which
  is not among the sources. It holds the dex file and the method index that its
  constructor \<^verbatim>\<open>MethodReference(file, index)\<close> is given.
\<close>

record (overloaded) ('w :: len) MethodReference =
  dex_file :: "'w word"
  dex_method_index :: "32 word"

definition MethodReference_new :: "'w word \<Rightarrow> 32 word \<Rightarrow> ('w :: len) MethodReference" where
  "MethodReference_new file index = \<lparr>dex_file = file, dex_method_index = index\<rparr>"

text \<open>The private constructor, and the four named constructors.\<close>

definition LinkerPatch_new ::
  "'w word \<Rightarrow> LinkerPatchType \<Rightarrow> 32 word \<Rightarrow> 'w word \<Rightarrow> ('w :: len) LinkerPatch" where
  "LinkerPatch_new literal_offset patch_type target_idx target_dex_file =
     \<lparr>literal_offset' = literal_offset, patch_type' = patch_type,
      target_idx' = target_idx, target_dex_file' = target_dex_file\<rparr>"

definition MethodPatch :: "'w word \<Rightarrow> 'w word \<Rightarrow> 32 word \<Rightarrow> ('w :: len) LinkerPatch" where
  "MethodPatch literal_offset target_dex_file target_method_idx =
     LinkerPatch_new literal_offset kLinkerPatchMethod target_method_idx target_dex_file"

definition CodePatch :: "'w word \<Rightarrow> 'w word \<Rightarrow> 32 word \<Rightarrow> ('w :: len) LinkerPatch" where
  "CodePatch literal_offset target_dex_file target_method_idx =
     LinkerPatch_new literal_offset kLinkerPatchCall target_method_idx target_dex_file"

definition RelativeCodePatch :: "'w word \<Rightarrow> 'w word \<Rightarrow> 32 word \<Rightarrow> ('w :: len) LinkerPatch" where
  "RelativeCodePatch literal_offset target_dex_file target_method_idx =
     LinkerPatch_new literal_offset kLinkerPatchCallRelative target_method_idx target_dex_file"

definition TypePatch :: "'w word \<Rightarrow> 'w word \<Rightarrow> 32 word \<Rightarrow> ('w :: len) LinkerPatch" where
  "TypePatch literal_offset target_dex_file target_type_idx =
     LinkerPatch_new literal_offset kLinkerPatchType target_type_idx target_dex_file"

text \<open>The accessors guarded by a \<^verbatim>\<open>DCHECK\<close> on the patch type.\<close>

definition TargetMethod :: "bool \<Rightarrow> ('w :: len) LinkerPatch \<Rightarrow> failure + 'w MethodReference" where
  "TargetMethod kEnableDChecks p =
     (if kEnableDChecks \<and>
         \<not> (patch_type' p = kLinkerPatchMethod \<or>
            patch_type' p = kLinkerPatchCall \<or> patch_type' p = kLinkerPatchCallRelative)
      then Inl DCheckFailed
      else Inr (MethodReference_new (target_dex_file' p) (target_idx' p)))"

definition TargetTypeDexFile :: "bool \<Rightarrow> ('w :: len) LinkerPatch \<Rightarrow> failure + 'w word" where
  "TargetTypeDexFile kEnableDChecks p =
     (if kEnableDChecks \<and> \<not> (patch_type' p = kLinkerPatchType) then Inl DCheckFailed
      else Inr (target_dex_file' p))"

definition TargetTypeIndex :: "bool \<Rightarrow> ('w :: len) LinkerPatch \<Rightarrow> failure + 32 word" where
  "TargetTypeIndex kEnableDChecks p =
     (if kEnableDChecks \<and> \<not> (patch_type' p = kLinkerPatchType) then Inl DCheckFailed
      else Inr (target_idx' p))"

text \<open>\<^verbatim>\<open>operator==\<close> and \<^verbatim>\<open>operator<\<close> on patches (lines 264-276).\<close>

definition LinkerPatch_eq :: "('w :: len) LinkerPatch \<Rightarrow> 'w LinkerPatch \<Rightarrow> bool" where
  "LinkerPatch_eq lhs rhs \<longleftrightarrow>
     literal_offset' lhs = literal_offset' rhs \<and>
     patch_type' lhs = patch_type' rhs \<and>
     target_idx' lhs = target_idx' rhs \<and>
     target_dex_file' lhs = target_dex_file' rhs"

definition LinkerPatch_less :: "('w :: len) LinkerPatch \<Rightarrow> 'w LinkerPatch \<Rightarrow> bool" where
  "LinkerPatch_less lhs rhs =
     (if literal_offset' lhs \<noteq> literal_offset' rhs
        then literal_offset' lhs < literal_offset' rhs
      else if patch_type' lhs \<noteq> patch_type' rhs
        then LinkerPatchType_value (patch_type' lhs) < LinkerPatchType_value (patch_type' rhs)
      else if target_idx' lhs \<noteq> target_idx' rhs
        then target_idx' lhs < target_idx' rhs
      else target_dex_file' lhs < target_dex_file' rhs)"

text \<open>
  Not in the source. Follows the specification's words: the lexicographic order on
  \<open>(offset, kind, target_index, container identity)\<close>.
\<close>

definition lexicographic_less :: "('w :: len) LinkerPatch \<Rightarrow> 'w LinkerPatch \<Rightarrow> bool" where
  "lexicographic_less a b \<longleftrightarrow>
     literal_offset' a < literal_offset' b \<or>
     (literal_offset' a = literal_offset' b \<and>
       (LinkerPatchType_value (patch_type' a) < LinkerPatchType_value (patch_type' b) \<or>
        (LinkerPatchType_value (patch_type' a) = LinkerPatchType_value (patch_type' b) \<and>
          (target_idx' a < target_idx' b \<or>
           (target_idx' a = target_idx' b \<and> target_dex_file' a < target_dex_file' b)))))"

section \<open>The composite key\<close>

lemma lex_int_less:
  fixes s t u v M :: int
  assumes "0 \<le> u" "u < M" "0 \<le> v" "v < M"
  shows "s * M + u < t * M + v \<longleftrightarrow> s < t \<or> (s = t \<and> u < v)"
proof -
  have M: "0 \<le> M" using assms by linarith
  consider "s < t" | "s = t" | "t < s" by linarith
  then show ?thesis
  proof cases
    case 1
    then have "(s + 1) * M \<le> t * M" using M by (intro mult_right_mono) simp_all
    then have "s * M + M \<le> t * M" by (simp add: distrib_right)
    with assms 1 show ?thesis by simp
  next
    case 2
    then show ?thesis by simp
  next
    case 3
    then have "(t + 1) * M \<le> s * M" using M by (intro mult_right_mono) simp_all
    then have "t * M + M \<le> s * M" by (simp add: distrib_right)
    with assms 3 show ?thesis by simp
  qed
qed

lemma int64_plus:
  "SrcMapElem_int64 e = push_bit 32 (scast (to' e) :: 64 word) + ucast (from' e)"
  unfolding SrcMapElem_int64_def
proof (rule disjunctive_add [symmetric])
  fix n
  show "\<not> bit (push_bit 32 (scast (to' e) :: 64 word)) n \<or> \<not> bit (ucast (from' e) :: 64 word) n"
  proof (cases "n < 32")
    case True
    then show ?thesis by (simp add: bit_push_bit_iff)
  next
    case False
    have "\<not> bit (from' e) n"
      using False bit_imp_le_length [of "from' e" n] by auto
    then show ?thesis by (simp add: bit_ucast_iff)
  qed
qed

lemma int64_of_int:
  "SrcMapElem_int64 e = word_of_int (sint (to' e) * 2 ^ 32 + uint (from' e))"
proof -
  have "push_bit 32 (scast (to' e) :: 64 word) = word_of_int (sint (to' e) * 2 ^ 32)"
    by (simp only: push_bit_eq_mult scast_eq of_int_mult of_int_power of_int_numeral)
  moreover have "(ucast (from' e) :: 64 word) = word_of_int (uint (from' e))"
    by (rule ucast_eq)
  ultimately show ?thesis
    by (simp only: int64_plus of_int_add)
qed

text \<open>The key, read as a signed 64-bit number, is \<open>to * 2^32 + from\<close> without any wrap.\<close>

lemma sint_int64: "sint (SrcMapElem_int64 e) = sint (to' e) * 2 ^ 32 + uint (from' e)"
proof -
  have "- 2147483648 \<le> sint (to' e)" "sint (to' e) < 2147483648"
    using sint_ge [of "to' e"] sint_lt [of "to' e"] by simp_all
  moreover have "0 \<le> uint (from' e)" "uint (from' e) < 4294967296"
    using uint_lt2p [of "from' e"] by simp_all
  ultimately have "- 9223372036854775808 \<le> sint (to' e) * 4294967296 + uint (from' e)"
    "sint (to' e) * 4294967296 + uint (from' e) < 9223372036854775808"
    by linarith+
  then have "- (2 ^ 63) \<le> sint (to' e) * 2 ^ 32 + uint (from' e)"
    "sint (to' e) * 2 ^ 32 + uint (from' e) < 2 ^ 63"
    by simp_all
  then have "signed_take_bit 63 (sint (to' e) * 2 ^ 32 + uint (from' e))
      = sint (to' e) * 2 ^ 32 + uint (from' e)"
    by (rule signed_take_bit_int_eq_self)
  then show ?thesis
    unfolding int64_of_int sint_sbintrunc' by simp
qed

lemma uint_from_bounds: "0 \<le> uint (from' e)" "uint (from' e) < 2 ^ 32"
  using uint_lt2p [of "from' e"] by simp_all

lemma SrcMapElem_less_iff:
  "SrcMapElem_less a b \<longleftrightarrow>
     sint (to' a) < sint (to' b) \<or> (sint (to' a) = sint (to' b) \<and> uint (from' a) < uint (from' b))"
  unfolding SrcMapElem_less_def word_sless_alt sint_int64
  by (rule lex_int_less) (rule uint_from_bounds)+

lemma SrcMapElem_eq_iff: "SrcMapElem_eq a b \<longleftrightarrow> a = b"
proof
  assume "SrcMapElem_eq a b"
  then have "sint (SrcMapElem_int64 a) = sint (SrcMapElem_int64 b)"
    by (simp add: SrcMapElem_eq_def)
  then have "\<not> sint (SrcMapElem_int64 a) < sint (SrcMapElem_int64 b)"
    "\<not> sint (SrcMapElem_int64 b) < sint (SrcMapElem_int64 a)"
    by simp_all
  then have "\<not> SrcMapElem_less a b" "\<not> SrcMapElem_less b a"
    by (simp_all add: SrcMapElem_less_def word_sless_alt)
  then have "sint (to' a) = sint (to' b) \<and> uint (from' a) = uint (from' b)"
    unfolding SrcMapElem_less_iff by linarith
  then have "to' a = to' b" "from' a = from' b"
    by (auto intro: signed_word_eqI word_uint_eqI)
  then show "a = b" by simp
next
  assume "a = b"
  then show "SrcMapElem_eq a b" by (simp add: SrcMapElem_eq_def)
qed

text \<open>
  C10. The composite key is injective and decides both operators: \<^verbatim>\<open>a == b\<close> holds exactly
  when both fields agree, and \<^verbatim>\<open>a < b\<close> holds exactly when \<open>(to, from)\<close> of \<open>a\<close> is
  lexicographically below that of \<open>b\<close>, with \<open>to\<close> compared as a signed and \<open>from\<close> as an
  unsigned 32-bit number; so an entry with a negative \<open>to\<close> is below every entry with a
  non-negative one.
\<close>

theorem SrcMapElem_key_decides_operators:
  "(SrcMapElem_int64 a = SrcMapElem_int64 b \<longleftrightarrow> a = b)
   \<and> (SrcMapElem_eq a b \<longleftrightarrow> from' a = from' b \<and> to' a = to' b)
   \<and> (SrcMapElem_less a b \<longleftrightarrow>
        sint (to' a) < sint (to' b) \<or> (to' a = to' b \<and> unat (from' a) < unat (from' b)))
   \<and> (sint (to' a) < 0 \<and> 0 \<le> sint (to' b) \<longrightarrow> SrcMapElem_less a b)"
proof -
  have 1: "SrcMapElem_int64 a = SrcMapElem_int64 b \<longleftrightarrow> a = b"
    using SrcMapElem_eq_iff [of a b] by (simp add: SrcMapElem_eq_def)
  have 2: "SrcMapElem_eq a b \<longleftrightarrow> from' a = from' b \<and> to' a = to' b"
    unfolding SrcMapElem_eq_iff by auto
  have "sint (to' a) = sint (to' b) \<longleftrightarrow> to' a = to' b"
    by (auto intro: signed_word_eqI)
  moreover have "uint (from' a) < uint (from' b) \<longleftrightarrow> unat (from' a) < unat (from' b)"
    by (simp add: word_less_def [symmetric] word_less_nat_alt)
  ultimately have 3: "SrcMapElem_less a b \<longleftrightarrow>
        sint (to' a) < sint (to' b) \<or> (to' a = to' b \<and> unat (from' a) < unat (from' b))"
    unfolding SrcMapElem_less_iff by simp
  have 4: "sint (to' a) < 0 \<and> 0 \<le> sint (to' b) \<longrightarrow> SrcMapElem_less a b"
    unfolding 3 by linarith
  from 1 2 3 4 show ?thesis by blast
qed

theorem SrcMapElem_key_decides_operators_witness:
  "SrcMapElem_less \<lparr>from' = 7, to' = - 1\<rparr> \<lparr>from' = 0, to' = 0\<rparr>"
proof -
  have "sint (- 1 :: 32 word) < 0 \<and> 0 \<le> sint (0 :: 32 word)" by simp
  with SrcMapElem_key_decides_operators
    [of "\<lparr>from' = 7, to' = - 1\<rparr>" "\<lparr>from' = 0, to' = 0\<rparr>"]
  show ?thesis by simp
qed


section \<open>Arrange and FindByTo\<close>

lemma std_sort_insert_key:
  assumes "\<And>a b. lt a b \<longleftrightarrow> f a < f b"
  shows "std_sort_insert lt v ys = insort_key f v ys"
  by (induction ys) (auto simp: assms)

lemma std_sort_key:
  assumes "\<And>a b. lt a b \<longleftrightarrow> f a < (f b :: 'k :: linorder)"
  shows "std_sort lt xs = sort_key f xs"
  unfolding std_sort_def sort_key_def
  by (induction xs) (simp_all add: std_sort_insert_key [of lt f, OF assms])

lemma std_unique_eq: "std_unique (=) xs = remdups_adj xs"
  by (induction xs rule: remdups_adj.induct) simp_all

lemma SrcMapElem_less_skey: "SrcMapElem_less a b \<longleftrightarrow> skey a < skey b"
  by (simp add: SrcMapElem_less_def skey_def word_sless_alt)

lemma inj_skey: "inj skey"
proof (rule injI)
  fix a b assume "skey a = skey b"
  then have "SrcMapElem_int64 a = SrcMapElem_int64 b"
    unfolding skey_def by (rule signed_word_eqI)
  then show "a = b" using SrcMapElem_eq_iff [of a b] by (simp add: SrcMapElem_eq_def)
qed

lemma SrcMapElem_eq_is_eq: "SrcMapElem_eq = (=)"
  by (intro ext) (rule SrcMapElem_eq_iff)

lemma Arrange_eq: "Arrange m = remdups_adj (sort_key skey m)"
  by (cases "m = []")
    (simp_all add: Arrange_def SrcMapElem_eq_is_eq std_unique_eq
      std_sort_key [of SrcMapElem_less skey, OF SrcMapElem_less_skey])

lemma canonical_iff: "canonical m \<longleftrightarrow> sorted (map skey m) \<and> distinct m"
proof -
  have "canonical m \<longleftrightarrow> sorted_wrt (<) (map skey m)"
    unfolding canonical_def sorted_wrt_map by (simp add: SrcMapElem_less_skey [abs_def])
  also have "\<dots> \<longleftrightarrow> sorted (map skey m) \<and> distinct (map skey m)"
    by (rule strict_sorted_iff)
  also have "distinct (map skey m) \<longleftrightarrow> distinct m"
    by (simp add: distinct_map inj_skey inj_on_subset [OF inj_skey])
  finally show ?thesis .
qed

lemma strict_sorted_remdups_adj:
  "sorted (xs :: 'a :: linorder list) \<Longrightarrow> sorted_wrt (<) (remdups_adj xs)"
  by (induction xs rule: remdups_adj.induct) (auto simp: less_le)

lemma Arrange_canonical: "canonical (Arrange m)"
proof -
  have "sorted (map skey (sort_key skey m))"
    by (rule sorted_sort_key)
  then have "sorted_wrt (<) (remdups_adj (map skey (sort_key skey m)))"
    by (rule strict_sorted_remdups_adj)
  then have "sorted_wrt (<) (map skey (Arrange m))"
    by (simp only: Arrange_eq remdups_adj_map_injective [OF inj_skey])
  then show ?thesis
    unfolding canonical_def sorted_wrt_map by (simp add: SrcMapElem_less_skey [abs_def])
qed

lemma Arrange_set: "set (Arrange m) = set m"
  by (simp add: Arrange_eq)

lemma Arrange_id: "canonical m \<Longrightarrow> Arrange m = m"
  unfolding canonical_iff Arrange_eq
  by (simp add: sort_key_id_if_sorted remdups_adj_distinct)

text \<open>
  C2. After \<^verbatim>\<open>Arrange\<close> the entries are strictly increasing by the signed 64-bit composite
  key, no key occurs twice, and the keys present are exactly the keys of the input: every
  distinct key of the input appears exactly once.
\<close>

theorem Arrange_sorted_unique:
  "sorted_wrt (\<lambda>a b. SrcMapElem_int64 a <s SrcMapElem_int64 b) (Arrange m)
   \<and> distinct (map SrcMapElem_int64 (Arrange m))
   \<and> set (map SrcMapElem_int64 (Arrange m)) = set (map SrcMapElem_int64 m)"
proof -
  have c: "canonical (Arrange m)" by (rule Arrange_canonical)
  then have 1: "sorted_wrt (\<lambda>a b. SrcMapElem_int64 a <s SrcMapElem_int64 b) (Arrange m)"
    by (simp add: canonical_def SrcMapElem_less_def [abs_def])
  have "inj SrcMapElem_int64"
    using SrcMapElem_eq_iff by (auto intro!: injI simp: SrcMapElem_eq_def)
  moreover have "distinct (Arrange m)" using c by (simp add: canonical_iff)
  ultimately have 2: "distinct (map SrcMapElem_int64 (Arrange m))"
    by (simp add: distinct_map inj_on_subset [OF _ subset_UNIV])
  have 3: "set (map SrcMapElem_int64 (Arrange m)) = set (map SrcMapElem_int64 m)"
    by (simp add: Arrange_set)
  from 1 2 3 show ?thesis by blast
qed

text \<open>
  C6. \<^verbatim>\<open>Arrange\<close> is idempotent, and it leaves a map that is already canonical unchanged.
\<close>

theorem Arrange_idempotent:
  "Arrange (Arrange m) = Arrange m \<and> (canonical m \<longrightarrow> Arrange m = m)"
  using Arrange_id [OF Arrange_canonical] Arrange_id by blast

theorem Arrange_idempotent_witness:
  "canonical [\<lparr>from' = 0, to' = 1\<rparr>, \<lparr>from' = 5, to' = 1\<rparr>, \<lparr>from' = 3, to' = 2\<rparr>]
   \<and> Arrange [\<lparr>from' = 0, to' = 1\<rparr>, \<lparr>from' = 5, to' = 1\<rparr>, \<lparr>from' = 3, to' = 2\<rparr>]
       = [\<lparr>from' = 0, to' = 1\<rparr>, \<lparr>from' = 5, to' = 1\<rparr>, \<lparr>from' = 3, to' = 2\<rparr>]"
proof -
  have "canonical [\<lparr>from' = 0, to' = 1\<rparr>, \<lparr>from' = 5, to' = 1\<rparr>, \<lparr>from' = 3, to' = 2\<rparr>]"
    by (simp add: canonical_def SrcMapElem_less_iff)
  with Arrange_idempotent
    [of "[\<lparr>from' = 0, to' = 1\<rparr>, \<lparr>from' = 5, to' = 1\<rparr>, \<lparr>from' = 3, to' = 2\<rparr>]"]
  show ?thesis by blast
qed


lemma lower_bound_loop_done: "lower_bound_loop lt xs val first 0 = first"
  by (simp add: lower_bound_loop.simps)

lemma lower_bound_loop_right:
  "0 < len \<Longrightarrow> lt (xs ! (first + len div 2)) val \<Longrightarrow>
   lower_bound_loop lt xs val first len
     = lower_bound_loop lt xs val (first + len div 2 + 1) (len - len div 2 - 1)"
  by (subst lower_bound_loop.simps) simp

lemma lower_bound_loop_left:
  "0 < len \<Longrightarrow> \<not> lt (xs ! (first + len div 2)) val \<Longrightarrow>
   lower_bound_loop lt xs val first len = lower_bound_loop lt xs val first (len div 2)"
  by (subst lower_bound_loop.simps) simp

lemma lower_bound_loop_correct:
  assumes part: "\<And>i j. i < j \<Longrightarrow> j < length xs \<Longrightarrow> lt (xs ! j) val \<Longrightarrow> lt (xs ! i) val"
  shows "first + len \<le> length xs \<Longrightarrow> (\<forall>j<first. lt (xs ! j) val) \<Longrightarrow>
     (\<forall>j. first + len \<le> j \<and> j < length xs \<longrightarrow> \<not> lt (xs ! j) val) \<Longrightarrow>
     lower_bound_post lt xs val (lower_bound_loop lt xs val first len)"
proof (induction len arbitrary: first rule: less_induct)
  case (less len)
  let ?mid = "first + len div 2"
  show ?case
  proof (cases "0 < len")
    case False
    with less.prems show ?thesis
      by (simp add: lower_bound_loop_done lower_bound_post_def)
  next
    case pos: True
    then have mid: "?mid < length xs" "len div 2 < len" using less.prems(1) by auto
    show ?thesis
    proof (cases "lt (xs ! ?mid) val")
      case True
      have a: "?mid + 1 + (len - len div 2 - 1) \<le> length xs"
        and a': "?mid + 1 + (len - len div 2 - 1) = first + len"
        and sm: "len - len div 2 - 1 < len"
        using mid less.prems(1) by simp_all
      have b: "\<forall>j<?mid + 1. lt (xs ! j) val"
      proof (intro allI impI)
        fix j assume "j < ?mid + 1"
        then consider "j = ?mid" | "j < ?mid" by linarith
        then show "lt (xs ! j) val"
          using True mid(1) part by cases auto
      qed
      have c: "\<forall>j. ?mid + 1 + (len - len div 2 - 1) \<le> j \<and> j < length xs \<longrightarrow> \<not> lt (xs ! j) val"
        unfolding a' using less.prems(3) .
      show ?thesis
        unfolding lower_bound_loop_right [of len lt xs first val, OF pos True]
        by (rule less.IH [OF sm a b c])
    next
      case False
      have a: "first + len div 2 \<le> length xs" using mid by simp
      have c: "\<forall>j. first + len div 2 \<le> j \<and> j < length xs \<longrightarrow> \<not> lt (xs ! j) val"
      proof (intro allI impI, elim conjE)
        fix j assume "?mid \<le> j" "j < length xs"
        then consider "j = ?mid" | "?mid < j" by linarith
        then show "\<not> lt (xs ! j) val"
          using False part \<open>j < length xs\<close> by cases auto
      qed
      show ?thesis
        unfolding lower_bound_loop_left [of len lt xs first val, OF pos False]
        by (rule less.IH [OF mid(2) a less.prems(2) c])
    qed
  qed
qed

lemma std_lower_bound_correct:
  assumes "\<And>i j. i < j \<Longrightarrow> j < length xs \<Longrightarrow> lt (xs ! j) val \<Longrightarrow> lt (xs ! i) val"
  shows "lower_bound_post lt xs val (std_lower_bound lt xs val)"
  unfolding std_lower_bound_def
proof (rule lower_bound_loop_correct [of xs lt val 0 "length xs"])
  show "\<forall>j. 0 + length xs \<le> j \<and> j < length xs \<longrightarrow> \<not> lt (xs ! j) val" by auto
qed (use assms in simp_all)

lemma SrcMapElem_less_trans:
  "SrcMapElem_less a b \<Longrightarrow> SrcMapElem_less b c \<Longrightarrow> SrcMapElem_less a c"
  by (simp add: SrcMapElem_less_skey)

text \<open>
  C4. On a canonical map \<^verbatim>\<open>FindByTo(to)\<close> returns the position of the first entry whose
  composite key is not below the key of \<open>{from = 0, to}\<close>: every entry before the returned
  position has a smaller key, and the entry at the returned position, if there is one,
  has not. When no entry qualifies the returned position is the end, \<open>length m\<close>.
\<close>

theorem FindByTo_lower_bound:
  assumes "canonical m"
  shows "FindByTo m to \<le> length m
    \<and> (\<forall>j<FindByTo m to. SrcMapElem_int64 (m ! j) <s SrcMapElem_int64 \<lparr>from' = 0, to' = to\<rparr>)
    \<and> (FindByTo m to < length m \<longrightarrow>
         SrcMapElem_int64 \<lparr>from' = 0, to' = to\<rparr> \<le>s SrcMapElem_int64 (m ! FindByTo m to))"
proof -
  let ?p = "\<lparr>from' = 0, to' = to\<rparr>"
  have "lower_bound_post SrcMapElem_less m ?p (FindByTo m to)"
    unfolding FindByTo_def
  proof (rule std_lower_bound_correct)
    fix i j assume "i < j" "j < length m" "SrcMapElem_less (m ! j) ?p"
    moreover from assms \<open>i < j\<close> \<open>j < length m\<close> have "SrcMapElem_less (m ! i) (m ! j)"
      unfolding canonical_def by (rule sorted_wrt_nth_less)
    ultimately show "SrcMapElem_less (m ! i) ?p"
      by (blast intro: SrcMapElem_less_trans)
  qed
  then show ?thesis
    unfolding lower_bound_post_def SrcMapElem_less_def
    by (auto simp: signed.not_less)
qed


theorem FindByTo_lower_bound_witness:
  "canonical [\<lparr>from' = 0, to' = 1\<rparr>, \<lparr>from' = 5, to' = 1\<rparr>, \<lparr>from' = 3, to' = 2\<rparr>]
   \<and> FindByTo [\<lparr>from' = 0, to' = 1\<rparr>, \<lparr>from' = 5, to' = 1\<rparr>, \<lparr>from' = 3, to' = 2\<rparr>] 2 = 2
   \<and> SrcMapElem_int64 \<lparr>from' = 0, to' = 2\<rparr> \<le>s SrcMapElem_int64 \<lparr>from' = 3, to' = 2\<rparr>"
proof -
  have c: "canonical [\<lparr>from' = 0, to' = 1\<rparr>, \<lparr>from' = 5, to' = 1\<rparr>, \<lparr>from' = 3, to' = 2\<rparr>]"
    by (simp add: canonical_def SrcMapElem_less_iff)
  have f: "FindByTo [\<lparr>from' = 0, to' = 1\<rparr>, \<lparr>from' = 5, to' = 1\<rparr>, \<lparr>from' = 3, to' = 2\<rparr>] 2 = 2"
    unfolding FindByTo_def std_lower_bound_def by code_simp
  from FindByTo_lower_bound [OF c, of 2] show ?thesis
    unfolding f using c by simp
qed

text \<open>
  \<^verbatim>\<open>operator<\<close> is a strict total order on entries, so the contract of \<^verbatim>\<open>std::sort\<close> leaves
  one result only for the sort in \<^verbatim>\<open>Arrange\<close>.
\<close>

lemma Arrange_sort_determined:
  assumes "std_sort_post SrcMapElem_less m ys"
  shows "ys = std_sort SrcMapElem_less m"
proof -
  from assms have ms: "mset m = mset ys"
    and so: "sorted_wrt (\<lambda>a b. \<not> SrcMapElem_less b a) ys"
    by (simp_all add: std_sort_post_def)
  from so have "sorted (map skey ys)"
    by (simp add: sorted_map SrcMapElem_less_skey not_less)
  moreover have "inj_on skey (set m)"
    by (rule inj_on_subset [OF inj_skey subset_UNIV])
  ultimately have "sort_key skey m = ys"
    using ms by (intro sort_key_inj_key_eq)
  then show ?thesis
    by (simp add: std_sort_key [of SrcMapElem_less skey, OF SrcMapElem_less_skey])
qed

section \<open>DeltaFormat\<close>

lemma std_sort_post_from:
  "std_sort_post from_less m ys \<longleftrightarrow> mset ys = mset m \<and> sorted (map from' ys)"
  by (simp add: std_sort_post_def from_less_def sorted_map not_less)

lemma SortByFrom_eq: "SortByFrom m = sort_key from' m"
  unfolding SortByFrom_def
  by (rule std_sort_key) (simp add: from_less_def)

lemma SortByFrom_post: "std_sort_post from_less m (SortByFrom m)"
  by (simp add: std_sort_post_from SortByFrom_eq)

lemma filter_below_sorted:
  "sorted (map f ys) \<Longrightarrow> filter (\<lambda>e. f e < (H :: 'k :: linorder)) ys = takeWhile (\<lambda>e. f e < H) ys"
proof (induction ys)
  case Nil
  then show ?case by simp
next
  case (Cons a ys)
  show ?case
  proof (cases "f a < H")
    case True
    with Cons show ?thesis by simp
  next
    case False
    with Cons.prems have "\<forall>x\<in>set ys. \<not> f x < H" by auto
    then have "filter (\<lambda>e. f e < H) ys = []" by (simp add: filter_empty_conv)
    with False show ?thesis by simp
  qed
qed

lemma filter_below_take:
  assumes "sorted (map f ys)"
  shows "filter (\<lambda>e. f e < (H :: 'k :: linorder)) ys = take (length (filter (\<lambda>e. f e < H) ys)) ys"
  unfolding filter_below_sorted [OF assms] by (rule takeWhile_eq_take)

lemma drop_highest_loop_count:
  assumes "sorted (map from' ys)"
  shows "i < length ys \<Longrightarrow>
    Suc (drop_highest_loop ys H i) = max 1 (length (filter (\<lambda>e. from' e < H) (take (Suc i) ys)))"
proof (induction i)
  case 0
  then have "length (filter (\<lambda>e. from' e < H) (take (Suc 0) ys)) \<le> 1"
    using length_filter_le [of "\<lambda>e. from' e < H" "take (Suc 0) ys"] by simp
  then show ?case by simp
next
  case (Suc i)
  then have i: "i < length ys" and si: "Suc i < length ys" by simp_all
  have split: "take (Suc (Suc i)) ys = take (Suc i) ys @ [ys ! Suc i]"
    using si by (rule take_Suc_conv_app_nth)
  show ?case
  proof (cases "from' (ys ! Suc i) < H")
    case True
    have "\<forall>e\<in>set (take (Suc (Suc i)) ys). from' e < H"
    proof
      fix e assume "e \<in> set (take (Suc (Suc i)) ys)"
      then obtain j where j: "j < Suc (Suc i)" "e = ys ! j"
        using si by (auto simp: in_set_conv_nth)
      then have "from' (ys ! j) \<le> from' (ys ! Suc i)"
        using assms si sorted_nth_mono [of "map from' ys" j "Suc i"] by simp
      with True j show "from' e < H" by simp
    qed
    then have "filter (\<lambda>e. from' e < H) (take (Suc (Suc i)) ys) = take (Suc (Suc i)) ys"
      by (simp add: filter_id_conv)
    with True si show ?thesis by simp
  next
    case False
    then have "filter (\<lambda>e. from' e < H) (take (Suc (Suc i)) ys)
        = filter (\<lambda>e. from' e < H) (take (Suc i) ys)"
      unfolding split by simp
    with False Suc.IH [OF i] show ?thesis by simp
  qed
qed

lemma length_delta_loop: "length (delta_loop xs k) = length xs"
  by (induction k arbitrary: xs) simp_all

lemma delta_loop_nth:
  "k < length xs \<Longrightarrow> j < length xs \<Longrightarrow>
   delta_loop xs k ! j =
     (if 1 \<le> j \<and> j \<le> k
      then \<lparr>from' = from' (xs ! j) - from' (xs ! (j - 1)), to' = to' (xs ! j) - to' (xs ! (j - 1))\<rparr>
      else xs ! j)"
proof (induction k arbitrary: xs)
  case 0
  then show ?case by auto
next
  case (Suc k)
  let ?xs' = "xs[Suc k := \<lparr>from' = from' (xs ! Suc k) - from' (xs ! k),
                          to' = to' (xs ! Suc k) - to' (xs ! k)\<rparr>]"
  have "delta_loop xs (Suc k) ! j = delta_loop ?xs' k ! j" by simp
  also have "\<dots> = (if 1 \<le> j \<and> j \<le> k
      then \<lparr>from' = from' (?xs' ! j) - from' (?xs' ! (j - 1)), to' = to' (?xs' ! j) - to' (?xs' ! (j - 1))\<rparr>
      else ?xs' ! j)"
    using Suc.prems by (intro Suc.IH) simp_all
  also have "\<dots> = (if 1 \<le> j \<and> j \<le> Suc k
      then \<lparr>from' = from' (xs ! j) - from' (xs ! (j - 1)), to' = to' (xs ! j) - to' (xs ! (j - 1))\<rparr>
      else xs ! j)"
    using Suc.prems by (auto simp: nth_list_update)
  finally show ?case .
qed

lemma length_deltas: "length (deltas prev xs) = length xs"
  by (induction xs arbitrary: prev) simp_all

lemma deltas_nth:
  "j < length xs \<Longrightarrow> deltas prev xs ! j =
     \<lparr>from' = from' (xs ! j) - from' (if j = 0 then prev else xs ! (j - 1)),
      to' = to' (xs ! j) - to' (if j = 0 then prev else xs ! (j - 1))\<rparr>"
proof (induction xs arbitrary: prev j)
  case Nil
  then show ?case by simp
next
  case (Cons x xs)
  show ?case
  proof (cases j)
    case 0
    then show ?thesis by simp
  next
    case (Suc n)
    with Cons.prems have "n < length xs" by simp
    from Cons.IH [OF this, of x] Suc show ?thesis by (cases n) simp_all
  qed
qed

lemma SrcMapElem_eta: "\<lparr>from' = from' a, to' = to' a\<rparr> = a"
  by (cases a) simp

lemma delta_loop_head: "xs \<noteq> [] \<Longrightarrow> delta_loop xs (length xs - 1) ! 0 = xs ! 0"
  by (simp add: delta_loop_nth)

lemma delta_loop_tail:
  assumes "Suc n < length xs"
  shows "delta_loop xs (length xs - 1) ! Suc n =
    \<lparr>from' = from' (xs ! Suc n) - from' (xs ! n), to' = to' (xs ! Suc n) - to' (xs ! n)\<rparr>"
proof -
  have "length xs - 1 < length xs" "1 \<le> Suc n \<and> Suc n \<le> length xs - 1"
    using assms by simp_all
  then show ?thesis
    using delta_loop_nth [of "length xs - 1" xs "Suc n"] assms by simp
qed

lemma delta_loop_deltas:
  assumes "xs \<noteq> []"
  shows "(delta_loop xs (length xs - 1))
      [0 := \<lparr>from' = from' (delta_loop xs (length xs - 1) ! 0) - from' start,
             to' = to' (delta_loop xs (length xs - 1) ! 0) - to' start\<rparr>] = deltas start xs"
    (is "?l = _")
proof (rule nth_equalityI)
  show len: "length ?l = length (deltas start xs)"
    by (simp add: length_delta_loop length_deltas)
  fix j
  assume "j < length ?l"
  then have j: "j < length xs" by (simp add: length_delta_loop)
  show "?l ! j = deltas start xs ! j"
  proof (cases j)
    case 0
    have "?l ! 0 = \<lparr>from' = from' (xs ! 0) - from' start, to' = to' (xs ! 0) - to' start\<rparr>"
      using assms delta_loop_head [OF assms] by (simp add: length_delta_loop)
    also have "\<dots> = deltas start xs ! 0"
      using deltas_nth [of 0 xs start] assms by simp
    finally show ?thesis using 0 by simp
  next
    case (Suc n)
    then have n: "Suc n < length xs" using j by simp
    have "?l ! Suc n = delta_loop xs (length xs - 1) ! Suc n" by simp
    also have "\<dots> = deltas start xs ! Suc n"
      using deltas_nth [of "Suc n" xs start] n delta_loop_tail [OF n] by simp
    finally show ?thesis using Suc by simp
  qed
qed


lemma reaccumulate_deltas: "reaccumulate prev (deltas prev xs) = xs"
  by (induction xs arbitrary: prev) (simp_all add: SrcMapElem_eta)


lemma deltas_take_head:
  "ys \<noteq> [] \<Longrightarrow> 0 < n \<Longrightarrow> deltas start (take n ys) ! 0
     = \<lparr>from' = from' (ys ! 0) - from' start, to' = to' (ys ! 0) - to' start\<rparr>"
  by (cases ys; cases n) simp_all

lemma sorted_head_min:
  assumes "std_sort_post from_less m ys" "m \<noteq> []"
  shows "ys \<noteq> []" "ys ! 0 \<in> set m" "\<forall>e\<in>set m. from' (ys ! 0) \<le> from' e"
proof -
  from assms have ms: "mset ys = mset m" and so: "sorted (map from' ys)"
    by (simp_all add: std_sort_post_from)
  from ms have st: "set ys = set m" by (rule mset_eq_setD)
  from ms assms(2) show ne: "ys \<noteq> []" by auto
  then show "ys ! 0 \<in> set m" using st by (metis length_greater_0_conv nth_mem)
  show "\<forall>e\<in>set m. from' (ys ! 0) \<le> from' e"
  proof
    fix e assume "e \<in> set m"
    then have "e \<in> set ys" using st by simp
    then obtain j where "j < length ys" "e = ys ! j" by (auto simp: in_set_conv_nth)
    then show "from' (ys ! 0) \<le> from' e"
      using so ne sorted_nth_mono [of "map from' ys" 0 j] by simp
  qed
qed

lemma drop_highest_total:
  assumes "m \<noteq> []" "std_sort_post from_less m ys"
  shows "drop_highest_loop ys H (length ys - 1) + 1
     = max 1 (length (filter (\<lambda>e. from' e < H) m))"
proof -
  let ?P = "\<lambda>e. from' e < H"
  from assms have ms: "mset ys = mset m" and so: "sorted (map from' ys)"
    by (simp_all add: std_sort_post_from)
  have ne: "ys \<noteq> []" using sorted_head_min(1) [OF assms(2,1)] .
  have "mset (filter ?P ys) = mset (filter ?P m)" using ms by simp
  then have cnt: "length (filter ?P ys) = length (filter ?P m)" by (rule mset_eq_length)
  have "length ys - 1 < length ys" using ne by simp
  from drop_highest_loop_count [OF so this, of H] show ?thesis
    using ne cnt by simp
qed

lemma DeltaFormat_closed:
  assumes "m \<noteq> []" "std_sort_post from_less m (srt m)"
  shows "DeltaFormat dbg srt start H m =
     (if dbg \<and> \<not> from' start \<le> from' (srt m ! 0) then Inl DCheckFailed
      else Inr (deltas start (take (max 1 (length (filter (\<lambda>e. from' e < H) m))) (srt m))))"
proof -
  let ?ys = "srt m"
  let ?n = "max 1 (length (filter (\<lambda>e. from' e < H) m))"
  have ne: "?ys \<noteq> []" using sorted_head_min(1) [OF assms(2,1)] .
  have i: "drop_highest_loop ?ys H (length ?ys - 1) + 1 = ?n"
    using assms by (rule drop_highest_total)
  have n: "0 < ?n" by simp
  have m2: "take ?n ?ys \<noteq> []" using ne by simp
  have hd: "delta_loop (take ?n ?ys) (length (take ?n ?ys) - 1) ! 0 = ?ys ! 0"
    using delta_loop_head [OF m2] n by simp
  show ?thesis
    unfolding DeltaFormat_def Let_def i hd delta_loop_deltas [OF m2, unfolded hd]
    using assms(1) by simp
qed

lemma round_trip_any_sort:
  assumes "m \<noteq> []"
    and "std_sort_post from_less m (sort_by_from m)"
    and "kEnableDChecks \<longrightarrow> (\<forall>e\<in>set m. from' start \<le> from' e)"
  shows "\<exists>d. DeltaFormat kEnableDChecks sort_by_from start H m = Inr d
     \<and> reaccumulate start d
         = take (max 1 (length (filter (\<lambda>e. from' e < H) m))) (sort_by_from m)
     \<and> (if \<exists>e\<in>set m. from' e < H
        then mset (reaccumulate start d) = filter_mset (\<lambda>e. from' e < H) (mset m)
        else \<exists>e\<in>set m. reaccumulate start d = [e] \<and> (\<forall>e'\<in>set m. from' e \<le> from' e'))"
proof -
  let ?ys = "sort_by_from m"
  let ?P = "\<lambda>e. from' e < H"
  let ?n = "max 1 (length (filter ?P m))"
  let ?d = "deltas start (take ?n ?ys)"
  note hm = sorted_head_min [OF assms(2,1)]
  from assms(2) have ms: "mset ?ys = mset m" and so: "sorted (map from' ?ys)"
    by (simp_all add: std_sort_post_from)
  have "\<not> (kEnableDChecks \<and> \<not> from' start \<le> from' (?ys ! 0))"
    using assms(3) hm(2) by auto
  then have 1: "DeltaFormat kEnableDChecks sort_by_from start H m = Inr ?d"
    unfolding DeltaFormat_closed [where srt = sort_by_from and m = m, OF assms(1,2)] by simp
  have 2: "reaccumulate start ?d = take ?n ?ys" by (rule reaccumulate_deltas)
  have 3: "if \<exists>e\<in>set m. from' e < H
        then mset (take ?n ?ys) = filter_mset ?P (mset m)
        else \<exists>e\<in>set m. take ?n ?ys = [e] \<and> (\<forall>e'\<in>set m. from' e \<le> from' e')"
  proof (cases "\<exists>e\<in>set m. from' e < H")
    case True
    then have "filter ?P m \<noteq> []" by (simp add: filter_empty_conv)
    then have "?n = length (filter ?P m)" by (cases "filter ?P m") simp_all
    also have "\<dots> = length (filter ?P ?ys)"
      using ms by (metis mset_filter mset_eq_length)
    finally have "take ?n ?ys = filter ?P ?ys"
      using filter_below_take [OF so, of H] by simp
    then have "mset (take ?n ?ys) = filter_mset ?P (mset m)"
      using ms by simp
    with True show ?thesis by simp
  next
    case False
    then have "filter ?P m = []" by (simp add: filter_empty_conv)
    then have "take ?n ?ys = [?ys ! 0]"
      using hm(1) by (cases ?ys) simp_all
    with False hm(2,3) show ?thesis by auto
  qed
  have 4: "if \<exists>e\<in>set m. from' e < H
        then mset (reaccumulate start ?d) = filter_mset ?P (mset m)
        else \<exists>e\<in>set m. reaccumulate start ?d = [e] \<and> (\<forall>e'\<in>set m. from' e \<le> from' e')"
    unfolding 2 by (rule 3)
  from 1 2 4 show ?thesis by blast
qed

lemma SortByFrom_example:
  "SortByFrom [\<lparr>from' = 10, to' = 1\<rparr>, \<lparr>from' = 20, to' = 2\<rparr>, \<lparr>from' = 90, to' = 3\<rparr>]
     = [\<lparr>from' = 10, to' = 1\<rparr>, \<lparr>from' = 20, to' = 2\<rparr>, \<lparr>from' = 90, to' = 3\<rparr>]"
  by (simp add: SortByFrom_eq)

lemma SortByFrom_unsorted_example:
  "SortByFrom [\<lparr>from' = 50, to' = 1\<rparr>, \<lparr>from' = 10, to' = 2\<rparr>, \<lparr>from' = 49, to' = 5\<rparr>]
     = [\<lparr>from' = 10, to' = 2\<rparr>, \<lparr>from' = 49, to' = 5\<rparr>, \<lparr>from' = 50, to' = 1\<rparr>]"
  by (simp add: SortByFrom_eq)

text \<open>
  C1. Round trip. For a non-empty map and any threshold \<open>H\<close>: \<^verbatim>\<open>DeltaFormat(start, H)\<close>
  returns (with debug checks, provided \<open>start.from\<close> is at most every \<open>from\<close> of the map),
  and the running sums of the deltas, begun at \<open>start\<close>, are the original absolute entries
  that were kept, in ascending order of \<open>from\<close>. The kept entries are exactly the entries
  with \<open>from < H\<close> when there is one; otherwise the single kept entry is an entry of least
  \<open>from\<close>. This holds of \<^verbatim>\<open>DeltaFormat\<close> as it is written, with \<^verbatim>\<open>SortByFrom\<close>, and also
  with any other order that \<^verbatim>\<open>std::sort\<close> may give to entries of equal \<open>from\<close>. Canonicity
  of the map is not needed.
\<close>

theorem DeltaFormat_round_trip:
  assumes "m \<noteq> []"
    and "kEnableDChecks \<longrightarrow> (\<forall>e\<in>set m. from' start \<le> from' e)"
  shows "(\<exists>d. DeltaFormat kEnableDChecks SortByFrom start H m = Inr d
        \<and> reaccumulate start d
            = take (max 1 (length (filter (\<lambda>e. from' e < H) m))) (SortByFrom m)
        \<and> (if \<exists>e\<in>set m. from' e < H
           then mset (reaccumulate start d) = filter_mset (\<lambda>e. from' e < H) (mset m)
           else \<exists>e\<in>set m. reaccumulate start d = [e] \<and> (\<forall>e'\<in>set m. from' e \<le> from' e')))
     \<and> (std_sort_post from_less m (sort_by_from m) \<longrightarrow>
         (\<exists>d. DeltaFormat kEnableDChecks sort_by_from start H m = Inr d
            \<and> reaccumulate start d
                = take (max 1 (length (filter (\<lambda>e. from' e < H) m))) (sort_by_from m)
            \<and> (if \<exists>e\<in>set m. from' e < H
               then mset (reaccumulate start d) = filter_mset (\<lambda>e. from' e < H) (mset m)
               else \<exists>e\<in>set m. reaccumulate start d = [e]
                      \<and> (\<forall>e'\<in>set m. from' e \<le> from' e'))))"
proof (intro conjI impI)
  show "\<exists>d. DeltaFormat kEnableDChecks SortByFrom start H m = Inr d
        \<and> reaccumulate start d
            = take (max 1 (length (filter (\<lambda>e. from' e < H) m))) (SortByFrom m)
        \<and> (if \<exists>e\<in>set m. from' e < H
           then mset (reaccumulate start d) = filter_mset (\<lambda>e. from' e < H) (mset m)
           else \<exists>e\<in>set m. reaccumulate start d = [e] \<and> (\<forall>e'\<in>set m. from' e \<le> from' e'))"
    by (rule round_trip_any_sort [where sort_by_from = SortByFrom and m = m,
          OF assms(1) SortByFrom_post assms(2)])
next
  assume "std_sort_post from_less m (sort_by_from m)"
  then show "\<exists>d. DeltaFormat kEnableDChecks sort_by_from start H m = Inr d
        \<and> reaccumulate start d
            = take (max 1 (length (filter (\<lambda>e. from' e < H) m))) (sort_by_from m)
        \<and> (if \<exists>e\<in>set m. from' e < H
           then mset (reaccumulate start d) = filter_mset (\<lambda>e. from' e < H) (mset m)
           else \<exists>e\<in>set m. reaccumulate start d = [e] \<and> (\<forall>e'\<in>set m. from' e \<le> from' e'))"
    by (rule round_trip_any_sort [where sort_by_from = sort_by_from and m = m,
          OF assms(1) _ assms(2)])
qed

theorem DeltaFormat_round_trip_witness:
  "canonical [\<lparr>from' = 50, to' = 1\<rparr>, \<lparr>from' = 10, to' = 2\<rparr>, \<lparr>from' = 49, to' = 5\<rparr>]
   \<and> DeltaFormat True SortByFrom \<lparr>from' = 5, to' = 0\<rparr> 50
          [\<lparr>from' = 50, to' = 1\<rparr>, \<lparr>from' = 10, to' = 2\<rparr>, \<lparr>from' = 49, to' = 5\<rparr>]
        = Inr [\<lparr>from' = 5, to' = 2\<rparr>, \<lparr>from' = 39, to' = 3\<rparr>]
   \<and> reaccumulate \<lparr>from' = 5, to' = 0\<rparr> [\<lparr>from' = 5, to' = 2\<rparr>, \<lparr>from' = 39, to' = 3\<rparr>]
        = [\<lparr>from' = 10, to' = 2\<rparr>, \<lparr>from' = 49, to' = 5\<rparr>]"
proof -
  let ?m = "[\<lparr>from' = 50, to' = 1\<rparr>, \<lparr>from' = 10, to' = 2\<rparr>, \<lparr>from' = 49, to' = 5\<rparr>]"
  let ?s = "\<lparr>from' = 5, to' = 0\<rparr>"
  have can: "canonical ?m" by (simp add: canonical_def SrcMapElem_less_iff)
  have a: "?m \<noteq> []" by simp
  have c: "True \<longrightarrow> (\<forall>e\<in>set ?m. from' ?s \<le> from' e)" by simp
  have df: "DeltaFormat True SortByFrom ?s 50 ?m
      = Inr [\<lparr>from' = 5, to' = 2\<rparr>, \<lparr>from' = 39, to' = 3\<rparr>]"
    by code_simp
  from DeltaFormat_round_trip [where m = ?m and H = 50 and sort_by_from = SortByFrom, OF a c]
  obtain d where d: "DeltaFormat True SortByFrom ?s 50 ?m = Inr d"
    and r: "reaccumulate ?s d
      = take (max 1 (length (filter (\<lambda>e. from' e < 50) ?m))) (SortByFrom ?m)"
    by blast
  from d df have "d = [\<lparr>from' = 5, to' = 2\<rparr>, \<lparr>from' = 39, to' = 3\<rparr>]" by simp
  with r have "reaccumulate ?s [\<lparr>from' = 5, to' = 2\<rparr>, \<lparr>from' = 39, to' = 3\<rparr>]
      = [\<lparr>from' = 10, to' = 2\<rparr>, \<lparr>from' = 49, to' = 5\<rparr>]"
    unfolding SortByFrom_unsorted_example by simp
  with can df show ?thesis by blast
qed

lemma keeps_anchor_any_sort:
  assumes "m \<noteq> []"
    and "std_sort_post from_less m (sort_by_from m)"
  shows "length (take (drop_highest_loop (sort_by_from m) H (length (sort_by_from m) - 1) + 1)
                  (sort_by_from m))
       = max 1 (length (filter (\<lambda>e. from' e < H) m))
     \<and> ((kEnableDChecks \<longrightarrow> (\<forall>e\<in>set m. from' start \<le> from' e)) \<longrightarrow>
         (\<exists>d. DeltaFormat kEnableDChecks sort_by_from start H m = Inr d
            \<and> d \<noteq> []
            \<and> length d = max 1 (length (filter (\<lambda>e. from' e < H) m))
            \<and> ((\<forall>e\<in>set m. H \<le> from' e) \<longrightarrow>
                 d = [\<lparr>from' = from' (sort_by_from m ! 0) - from' start,
                       to' = to' (sort_by_from m ! 0) - to' start\<rparr>])))"
proof -
  let ?ys = "sort_by_from m"
  let ?P = "\<lambda>e. from' e < H"
  let ?n = "max 1 (length (filter ?P m))"
  let ?d = "deltas start (take ?n ?ys)"
  note hm = sorted_head_min [OF assms(2,1)]
  from assms(2) have ms: "mset ?ys = mset m" by (simp add: std_sort_post_from)
  then have len: "length ?ys = length m" by (rule mset_eq_length)
  have n: "?n \<le> length m"
    using assms(1) length_filter_le [of ?P m] by (cases m) simp_all
  have 0: "length (take (drop_highest_loop ?ys H (length ?ys - 1) + 1) ?ys) = ?n"
    unfolding drop_highest_total [OF assms] using n len by simp
  have 2: "length ?d = ?n" using n by (simp add: length_deltas len)
  then have 3: "?d \<noteq> []" by auto
  have 4: "(\<forall>e\<in>set m. H \<le> from' e) \<longrightarrow>
          ?d = [\<lparr>from' = from' (?ys ! 0) - from' start, to' = to' (?ys ! 0) - to' start\<rparr>]"
  proof
    assume "\<forall>e\<in>set m. H \<le> from' e"
    then have "filter ?P m = []" by (auto simp: filter_empty_conv)
    then have "take ?n ?ys = [?ys ! 0]"
      using hm(1) by (cases ?ys) simp_all
    then show "?d = [\<lparr>from' = from' (?ys ! 0) - from' start, to' = to' (?ys ! 0) - to' start\<rparr>]"
      by simp
  qed
  have 1: "DeltaFormat kEnableDChecks sort_by_from start H m = Inr ?d"
    if "kEnableDChecks \<longrightarrow> (\<forall>e\<in>set m. from' start \<le> from' e)"
  proof -
    have "\<not> (kEnableDChecks \<and> \<not> from' start \<le> from' (?ys ! 0))"
      using that hm(2) by auto
    then show ?thesis
      unfolding DeltaFormat_closed [where srt = sort_by_from and m = m, OF assms(1,2)] by simp
  qed
  from 0 1 2 3 4 show ?thesis by blast
qed

text \<open>
  C5. The truncation keeps an anchor. For a non-empty map the vector after
  \<^verbatim>\<open>resize(i + 1)\<close> has \<open>max 1 (number of entries with from < H)\<close> entries, and so has the
  result of \<^verbatim>\<open>DeltaFormat\<close>, which is never empty; when every \<open>from\<close> is at least \<open>H\<close> the
  result is entry 0 of the sorted map alone, an entry of least \<open>from\<close>, as its difference
  from \<open>start\<close>. This holds of \<^verbatim>\<open>DeltaFormat\<close> as it is written, with \<^verbatim>\<open>SortByFrom\<close>, and
  also with any other order that \<^verbatim>\<open>std::sort\<close> may give to entries of equal \<open>from\<close>.
\<close>

theorem DeltaFormat_keeps_anchor:
  assumes "m \<noteq> []"
  shows "length (take (drop_highest_loop (SortByFrom m) H (length (SortByFrom m) - 1) + 1)
                  (SortByFrom m))
       = max 1 (length (filter (\<lambda>e. from' e < H) m))
     \<and> SortByFrom m ! 0 \<in> set m
     \<and> (\<forall>e\<in>set m. from' (SortByFrom m ! 0) \<le> from' e)
     \<and> ((kEnableDChecks \<longrightarrow> (\<forall>e\<in>set m. from' start \<le> from' e)) \<longrightarrow>
         (\<exists>d. DeltaFormat kEnableDChecks SortByFrom start H m = Inr d
            \<and> d \<noteq> []
            \<and> length d = max 1 (length (filter (\<lambda>e. from' e < H) m))
            \<and> ((\<forall>e\<in>set m. H \<le> from' e) \<longrightarrow>
                 d = [\<lparr>from' = from' (SortByFrom m ! 0) - from' start,
                       to' = to' (SortByFrom m ! 0) - to' start\<rparr>])))
     \<and> (std_sort_post from_less m (sort_by_from m) \<longrightarrow>
          length (take (drop_highest_loop (sort_by_from m) H (length (sort_by_from m) - 1) + 1)
                  (sort_by_from m))
            = max 1 (length (filter (\<lambda>e. from' e < H) m))
          \<and> ((kEnableDChecks \<longrightarrow> (\<forall>e\<in>set m. from' start \<le> from' e)) \<longrightarrow>
              (\<exists>d. DeltaFormat kEnableDChecks sort_by_from start H m = Inr d
                 \<and> d \<noteq> []
                 \<and> length d = max 1 (length (filter (\<lambda>e. from' e < H) m))
                 \<and> ((\<forall>e\<in>set m. H \<le> from' e) \<longrightarrow>
                      d = [\<lparr>from' = from' (sort_by_from m ! 0) - from' start,
                            to' = to' (sort_by_from m ! 0) - to' start\<rparr>]))))"
proof -
  note code = keeps_anchor_any_sort [where sort_by_from = SortByFrom and m = m
      and kEnableDChecks = kEnableDChecks and start = start and H = H,
      OF assms SortByFrom_post]
  note hm = sorted_head_min [OF SortByFrom_post assms]
  have any: "std_sort_post from_less m (sort_by_from m) \<longrightarrow>
          length (take (drop_highest_loop (sort_by_from m) H (length (sort_by_from m) - 1) + 1)
                  (sort_by_from m))
            = max 1 (length (filter (\<lambda>e. from' e < H) m))
          \<and> ((kEnableDChecks \<longrightarrow> (\<forall>e\<in>set m. from' start \<le> from' e)) \<longrightarrow>
              (\<exists>d. DeltaFormat kEnableDChecks sort_by_from start H m = Inr d
                 \<and> d \<noteq> []
                 \<and> length d = max 1 (length (filter (\<lambda>e. from' e < H) m))
                 \<and> ((\<forall>e\<in>set m. H \<le> from' e) \<longrightarrow>
                      d = [\<lparr>from' = from' (sort_by_from m ! 0) - from' start,
                            to' = to' (sort_by_from m ! 0) - to' start\<rparr>])))"
    by (rule impI) (rule keeps_anchor_any_sort [where sort_by_from = sort_by_from and m = m,
          OF assms])
  from code hm(2,3) any show ?thesis by (intro conjI) (elim conjE, assumption)+
qed

theorem DeltaFormat_keeps_anchor_witness:
  "DeltaFormat True SortByFrom \<lparr>from' = 5, to' = 0\<rparr> 50
          [\<lparr>from' = 50, to' = 2\<rparr>, \<lparr>from' = 10, to' = 1\<rparr>, \<lparr>from' = 49, to' = 5\<rparr>]
        = Inr [\<lparr>from' = 5, to' = 1\<rparr>, \<lparr>from' = 39, to' = 4\<rparr>]
   \<and> length [\<lparr>from' = 5, to' = 1\<rparr>, \<lparr>from' = 39, to' = 4\<rparr> :: SrcMapElem]
        = max 1 (length (filter (\<lambda>e. from' e < 50)
            [\<lparr>from' = 50, to' = 2\<rparr>, \<lparr>from' = 10, to' = 1\<rparr>, \<lparr>from' = 49, to' = 5\<rparr>]))
   \<and> DeltaFormat True SortByFrom \<lparr>from' = 5, to' = 0\<rparr> 7
          [\<lparr>from' = 90, to' = 3\<rparr>, \<lparr>from' = 10, to' = 1\<rparr>, \<lparr>from' = 20, to' = 2\<rparr>]
        = Inr [\<lparr>from' = 5, to' = 1\<rparr>]"
proof -
  let ?m = "[\<lparr>from' = 50, to' = 2\<rparr>, \<lparr>from' = 10, to' = 1\<rparr>, \<lparr>from' = 49, to' = 5\<rparr>]"
  let ?m' = "[\<lparr>from' = 90, to' = 3\<rparr>, \<lparr>from' = 10, to' = 1\<rparr>, \<lparr>from' = 20, to' = 2\<rparr>]"
  let ?s = "\<lparr>from' = 5, to' = 0\<rparr>"
  have a: "?m \<noteq> []" and a': "?m' \<noteq> []" by simp_all
  have c: "True \<longrightarrow> (\<forall>e\<in>set ?m. from' ?s \<le> from' e)" by simp
  have c': "True \<longrightarrow> (\<forall>e\<in>set ?m'. from' ?s \<le> from' e)" by simp
  have h': "\<forall>e\<in>set ?m'. (7 :: 32 word) \<le> from' e" by simp
  have df: "DeltaFormat True SortByFrom ?s 50 ?m
      = Inr [\<lparr>from' = 5, to' = 1\<rparr>, \<lparr>from' = 39, to' = 4\<rparr>]"
    by code_simp
  have s': "SortByFrom ?m' ! 0 = \<lparr>from' = 10, to' = 1\<rparr>"
    by (simp add: SortByFrom_eq)
  from DeltaFormat_keeps_anchor [where m = ?m and H = 50 and kEnableDChecks = True
      and start = ?s and sort_by_from = SortByFrom, OF a] c
  obtain d where "DeltaFormat True SortByFrom ?s 50 ?m = Inr d"
    and "length d = max 1 (length (filter (\<lambda>e. from' e < 50) ?m))"
    by blast
  with df have 1: "length [\<lparr>from' = 5, to' = 1\<rparr>, \<lparr>from' = 39, to' = 4\<rparr> :: SrcMapElem]
      = max 1 (length (filter (\<lambda>e. from' e < 50) ?m))"
    by simp
  from DeltaFormat_keeps_anchor [where m = ?m' and H = 7 and kEnableDChecks = True
      and start = ?s and sort_by_from = SortByFrom, OF a'] c' h'
  obtain d' where "DeltaFormat True SortByFrom ?s 7 ?m' = Inr d'"
    and "d' = [\<lparr>from' = from' (SortByFrom ?m' ! 0) - from' ?s,
               to' = to' (SortByFrom ?m' ! 0) - to' ?s\<rparr>]"
    by blast
  then have 2: "DeltaFormat True SortByFrom ?s 7 ?m' = Inr [\<lparr>from' = 5, to' = 1\<rparr>]"
    unfolding s' by simp
  from df 1 2 show ?thesis by blast
qed

text \<open>
  C9. With debug checks enabled: when \<open>start.from\<close> is at most every \<open>from\<close> of a
  non-empty map, the check \<^verbatim>\<open>(*this)[0].from_ >= start.from_\<close> passes and the subtraction on
  entry 0 does not wrap (the unsigned result is the mathematical difference); when
  \<open>start.from\<close> exceeds the absolute \<open>from\<close> of entry 0, the check fails. Entry 0 holds the
  least \<open>from\<close> of the map at that point.
\<close>

theorem DeltaFormat_dcheck:
  assumes "m \<noteq> []"
    and "std_sort_post from_less m (sort_by_from m)"
  shows "((\<forall>e\<in>set m. from' start \<le> from' e) \<longrightarrow>
           (\<exists>d. DeltaFormat True sort_by_from start H m = Inr d
              \<and> uint (from' (d ! 0)) = uint (from' (sort_by_from m ! 0)) - uint (from' start)))
     \<and> (from' (sort_by_from m ! 0) < from' start \<longrightarrow>
           DeltaFormat True sort_by_from start H m = Inl DCheckFailed)
     \<and> ((\<forall>e\<in>set m. from' start \<le> from' e) \<longleftrightarrow> from' start \<le> from' (sort_by_from m ! 0))"
proof -
  let ?ys = "sort_by_from m"
  let ?n = "max 1 (length (filter (\<lambda>e. from' e < H) m))"
  let ?d = "deltas start (take ?n ?ys)"
  note hm = sorted_head_min [OF assms(2,1)]
  note cl = DeltaFormat_closed [where srt = sort_by_from and m = m and dbg = True
      and start = start and H = H, OF assms(1,2)]
  have 3: "(\<forall>e\<in>set m. from' start \<le> from' e) \<longleftrightarrow> from' start \<le> from' (?ys ! 0)"
    using hm(2,3) by (meson order_trans)
  have hd: "?d ! 0 = \<lparr>from' = from' (?ys ! 0) - from' start, to' = to' (?ys ! 0) - to' start\<rparr>"
    using hm(1) by (intro deltas_take_head) simp_all
  have 1: "(\<forall>e\<in>set m. from' start \<le> from' e) \<longrightarrow>
           (\<exists>d. DeltaFormat True sort_by_from start H m = Inr d
              \<and> uint (from' (d ! 0)) = uint (from' (?ys ! 0)) - uint (from' start))"
  proof
    assume "\<forall>e\<in>set m. from' start \<le> from' e"
    then have le: "from' start \<le> from' (?ys ! 0)" using 3 by simp
    then have "DeltaFormat True sort_by_from start H m = Inr ?d"
      unfolding cl by simp
    moreover have "uint (from' (?d ! 0)) = uint (from' (?ys ! 0)) - uint (from' start)"
      unfolding hd using le by (simp add: uint_sub_lem [symmetric] word_le_def)
    ultimately show "\<exists>d. DeltaFormat True sort_by_from start H m = Inr d
              \<and> uint (from' (d ! 0)) = uint (from' (?ys ! 0)) - uint (from' start)"
      by blast
  qed
  have 2: "from' (?ys ! 0) < from' start \<longrightarrow>
           DeltaFormat True sort_by_from start H m = Inl DCheckFailed"
    unfolding cl by (simp add: not_le)
  from 1 2 3 show ?thesis by blast
qed

theorem DeltaFormat_dcheck_witness:
  "(\<exists>d. DeltaFormat True SortByFrom \<lparr>from' = 5, to' = 0\<rparr> 50
          [\<lparr>from' = 10, to' = 1\<rparr>, \<lparr>from' = 20, to' = 2\<rparr>, \<lparr>from' = 90, to' = 3\<rparr>] = Inr d
        \<and> uint (from' (d ! 0)) = 5)
   \<and> DeltaFormat True SortByFrom \<lparr>from' = 11, to' = 0\<rparr> 50
          [\<lparr>from' = 10, to' = 1\<rparr>, \<lparr>from' = 20, to' = 2\<rparr>, \<lparr>from' = 90, to' = 3\<rparr>]
        = Inl DCheckFailed"
proof -
  let ?m = "[\<lparr>from' = 10, to' = 1\<rparr>, \<lparr>from' = 20, to' = 2\<rparr>, \<lparr>from' = 90, to' = 3\<rparr>]"
  have a: "?m \<noteq> []" by simp
  have b: "std_sort_post from_less ?m (SortByFrom ?m)" by (rule SortByFrom_post)
  have c: "\<forall>e\<in>set ?m. from' \<lparr>from' = 5, to' = 0\<rparr> \<le> from' e" by simp
  have d: "from' (SortByFrom ?m ! 0) < from' \<lparr>from' = 11, to' = 0\<rparr>"
    unfolding SortByFrom_example by simp
  from DeltaFormat_dcheck [where sort_by_from = SortByFrom and m = ?m
      and start = "\<lparr>from' = 5, to' = 0\<rparr>" and H = 50, OF a b] c
  have "\<exists>d. DeltaFormat True SortByFrom \<lparr>from' = 5, to' = 0\<rparr> 50 ?m = Inr d
        \<and> uint (from' (d ! 0)) = 5"
    unfolding SortByFrom_example by simp
  moreover from DeltaFormat_dcheck [where sort_by_from = SortByFrom and m = ?m
      and start = "\<lparr>from' = 11, to' = 0\<rparr>" and H = 50, OF a b] d
  have "DeltaFormat True SortByFrom \<lparr>from' = 11, to' = 0\<rparr> 50 ?m = Inl DCheckFailed"
    by blast
  ultimately show ?thesis by blast
qed

text \<open>
  C7. The example: the map \<open>[(10,1), (20,2), (90,3)]\<close> with baseline \<open>(5,0)\<close> and
  \<open>highest_pc = 50\<close> loses the entry at offset 90 and becomes \<open>[(5,1), (10,1)]\<close>.
\<close>

theorem DeltaFormat_example:
  assumes "std_sort_post from_less
      [\<lparr>from' = 10, to' = 1\<rparr>, \<lparr>from' = 20, to' = 2\<rparr>, \<lparr>from' = 90, to' = 3\<rparr>]
      (sort_by_from [\<lparr>from' = 10, to' = 1\<rparr>, \<lparr>from' = 20, to' = 2\<rparr>, \<lparr>from' = 90, to' = 3\<rparr>])"
  shows "DeltaFormat kEnableDChecks sort_by_from \<lparr>from' = 5, to' = 0\<rparr> 50
      [\<lparr>from' = 10, to' = 1\<rparr>, \<lparr>from' = 20, to' = 2\<rparr>, \<lparr>from' = 90, to' = 3\<rparr>]
    = Inr [\<lparr>from' = 5, to' = 1\<rparr>, \<lparr>from' = 10, to' = 1\<rparr>]"
proof -
  let ?m = "[\<lparr>from' = 10, to' = 1\<rparr>, \<lparr>from' = 20, to' = 2\<rparr>, \<lparr>from' = 90, to' = 3\<rparr>]"
  from assms have ms: "mset ?m = mset (sort_by_from ?m)" and so: "sorted (map from' (sort_by_from ?m))"
    by (simp_all add: std_sort_post_from)
  have inj: "inj_on from' (set ?m)" by (simp add: inj_on_def)
  have "sort_key from' ?m = sort_by_from ?m"
    using ms inj so by (rule sort_key_inj_key_eq)
  then have srt: "sort_by_from ?m = ?m" by simp
  have ne: "?m \<noteq> []" by simp
  show ?thesis
    unfolding DeltaFormat_closed [where srt = sort_by_from and m = ?m, OF ne assms] srt
    by simp
qed

theorem DeltaFormat_example_witness:
  "DeltaFormat True SortByFrom \<lparr>from' = 5, to' = 0\<rparr> 50
      [\<lparr>from' = 10, to' = 1\<rparr>, \<lparr>from' = 20, to' = 2\<rparr>, \<lparr>from' = 90, to' = 3\<rparr>]
    = Inr [\<lparr>from' = 5, to' = 1\<rparr>, \<lparr>from' = 10, to' = 1\<rparr>]"
  using DeltaFormat_example [of SortByFrom True] SortByFrom_post by blast

section \<open>LinkerPatch: ordering and accessors\<close>

lemma LinkerPatchType_value_inj:
  "LinkerPatchType_value s = LinkerPatchType_value t \<longleftrightarrow> s = t"
  by (cases s; cases t) simp_all

lemma LinkerPatch_less_lex: "LinkerPatch_less a b \<longleftrightarrow> lexicographic_less a b"
  unfolding LinkerPatch_less_def lexicographic_less_def
  by (auto simp: LinkerPatchType_value_inj)

lemma LinkerPatch_eq_iff: "LinkerPatch_eq a b \<longleftrightarrow> a = b"
  unfolding LinkerPatch_eq_def by auto

lemma LinkerPatch_less_irrefl: "\<not> LinkerPatch_less a a"
  by (simp add: LinkerPatch_less_def)

lemma LinkerPatchType_value_neq:
  "s \<noteq> t \<Longrightarrow> LinkerPatchType_value s < LinkerPatchType_value t
     \<or> LinkerPatchType_value t < LinkerPatchType_value s"
  using LinkerPatchType_value_inj [of s t] by linarith

lemma LinkerPatch_less_total:
  "a \<noteq> b \<Longrightarrow> LinkerPatch_less a b \<longleftrightarrow> \<not> LinkerPatch_less b a"
  unfolding LinkerPatch_eq_iff [symmetric] LinkerPatch_eq_def LinkerPatch_less_def
  by (auto dest: LinkerPatchType_value_neq)

lemma LinkerPatch_less_trans:
  "LinkerPatch_less a b \<Longrightarrow> LinkerPatch_less b c \<Longrightarrow> LinkerPatch_less a c"
  unfolding LinkerPatch_less_lex lexicographic_less_def
  by (elim disjE conjE) (auto simp: LinkerPatchType_value_inj)

text \<open>
  C3. \<^verbatim>\<open>operator<\<close> on patches is a strict total order: it coincides with the
  lexicographic order on (literal offset, patch type, target index, dex file address),
  of two different patches exactly one is below the other, and the order is irreflexive
  and transitive. Two patches are \<^verbatim>\<open>==\<close> exactly when all four fields agree.
\<close>

theorem LinkerPatch_strict_total_order:
  "(LinkerPatch_less a b \<longleftrightarrow> lexicographic_less a b)
   \<and> (a \<noteq> b \<longrightarrow> (LinkerPatch_less a b \<longleftrightarrow> \<not> LinkerPatch_less b a))
   \<and> \<not> LinkerPatch_less a a
   \<and> (LinkerPatch_less a b \<and> LinkerPatch_less b c \<longrightarrow> LinkerPatch_less a c)
   \<and> (LinkerPatch_eq a b \<longleftrightarrow> a = b)"
  using LinkerPatch_less_lex [of a b] LinkerPatch_less_total [of a b]
    LinkerPatch_less_irrefl [of a] LinkerPatch_less_trans [of a b c] LinkerPatch_eq_iff [of a b]
  by blast

theorem LinkerPatch_strict_total_order_witness:
  "(MethodPatch 8 4096 3 :: 64 LinkerPatch) \<noteq> TypePatch 8 4096 3
   \<and> LinkerPatch_less (MethodPatch 8 4096 3 :: 64 LinkerPatch) (TypePatch 8 4096 3)
   \<and> \<not> LinkerPatch_less (TypePatch 8 4096 3) (MethodPatch 8 4096 3 :: 64 LinkerPatch)
   \<and> LinkerPatch_less (TypePatch 8 4096 3) (TypePatch 12 16 0 :: 64 LinkerPatch)
   \<and> LinkerPatch_less (MethodPatch 8 4096 3 :: 64 LinkerPatch) (TypePatch 12 16 0)"
proof -
  have ne: "(MethodPatch 8 4096 3 :: 64 LinkerPatch) \<noteq> TypePatch 8 4096 3"
    by (simp add: MethodPatch_def TypePatch_def LinkerPatch_new_def)
  have l1: "LinkerPatch_less (MethodPatch 8 4096 3 :: 64 LinkerPatch) (TypePatch 8 4096 3)"
    by (simp add: LinkerPatch_less_def MethodPatch_def TypePatch_def LinkerPatch_new_def)
  have l2: "LinkerPatch_less (TypePatch 8 4096 3) (TypePatch 12 16 0 :: 64 LinkerPatch)"
    by (simp add: LinkerPatch_less_def TypePatch_def LinkerPatch_new_def)
  from LinkerPatch_strict_total_order
    [of "MethodPatch 8 4096 3 :: 64 LinkerPatch" "TypePatch 8 4096 3" "TypePatch 12 16 0"]
    ne l1 l2
  show ?thesis by blast
qed

text \<open>
  C8. On a patch made by \<^verbatim>\<open>MethodPatch\<close>, \<^verbatim>\<open>CodePatch\<close> or \<^verbatim>\<open>RelativeCodePatch\<close> the check in
  \<^verbatim>\<open>TargetMethod\<close> passes and the result is the method reference of the supplied dex file
  and method index; on a patch made by \<^verbatim>\<open>TypePatch\<close> the checks in \<^verbatim>\<open>TargetTypeDexFile\<close> and
  \<^verbatim>\<open>TargetTypeIndex\<close> pass and the results are the supplied dex file and type index. With
  debug checks enabled, \<^verbatim>\<open>TargetMethod\<close> on a type patch and the two type accessors on the
  other three kinds fail their check.
\<close>

theorem LinkerPatch_accessor_contracts:
  "TargetMethod dchecks (MethodPatch off dex idx) = Inr (MethodReference_new dex idx)
   \<and> TargetMethod dchecks (CodePatch off dex idx) = Inr (MethodReference_new dex idx)
   \<and> TargetMethod dchecks (RelativeCodePatch off dex idx) = Inr (MethodReference_new dex idx)
   \<and> dex_file (MethodReference_new dex idx) = dex
   \<and> dex_method_index (MethodReference_new dex idx) = idx
   \<and> TargetTypeDexFile dchecks (TypePatch off dex idx) = Inr dex
   \<and> TargetTypeIndex dchecks (TypePatch off dex idx) = Inr idx
   \<and> TargetMethod True (TypePatch off dex idx) = Inl DCheckFailed
   \<and> TargetTypeDexFile True (MethodPatch off dex idx) = Inl DCheckFailed
   \<and> TargetTypeDexFile True (CodePatch off dex idx) = Inl DCheckFailed
   \<and> TargetTypeDexFile True (RelativeCodePatch off dex idx) = Inl DCheckFailed
   \<and> TargetTypeIndex True (MethodPatch off dex idx) = Inl DCheckFailed
   \<and> TargetTypeIndex True (CodePatch off dex idx) = Inl DCheckFailed
   \<and> TargetTypeIndex True (RelativeCodePatch off dex idx) = Inl DCheckFailed"
  by (simp add: TargetMethod_def TargetTypeDexFile_def TargetTypeIndex_def
      MethodPatch_def CodePatch_def RelativeCodePatch_def TypePatch_def
      LinkerPatch_new_def MethodReference_new_def)

end
